theory Spec2Isabelle
  imports Complex_Main "HOL-Library.Word"
begin


section \<open>JavaScript values and their truthiness\<close>

text \<open>
  The connector is dynamically typed: a field of a source record can hold any JSON
  value, and the code tells "absent" from "present" with the \<open>||\<close> operator, that is,
  by truthiness. Numbers are modelled by their integer value (only whether a number is
  zero matters to the code); a string is the list of its UTF-8 bytes.
\<close>

datatype jsval =
    JUndefined
  | JNull
  | JBool bool
  | JNum int
  | JStr string
  | JArr "jsval list"
  | JObj "(string \<times> jsval) list"

fun truthy :: "jsval \<Rightarrow> bool" where
  "truthy JUndefined = False"
| "truthy JNull = False"
| "truthy (JBool b) = b"
| "truthy (JNum n) = (n \<noteq> 0)"
| "truthy (JStr s) = (s \<noteq> [])"
| "truthy (JArr xs) = True"
| "truthy (JObj fs) = True"

text \<open>\<open>a || b\<close>: the left operand when it is truthy, the right one otherwise.\<close>

definition js_or :: "jsval \<Rightarrow> jsval \<Rightarrow> jsval" where
  "js_or a b = (if truthy a then a else b)"

text \<open>A source record is an object; reading a field that is not there gives \<open>undefined\<close>.\<close>

type_synonym rawdoc = "(string \<times> jsval) list"

definition get_field :: "rawdoc \<Rightarrow> string \<Rightarrow> jsval" where
  "get_field document k = (case map_of document k of None \<Rightarrow> JUndefined | Some v \<Rightarrow> v)"

type_synonym byte = "8 word"

definition utf8 :: "string \<Rightarrow> byte list" where
  "utf8 s = map of_char s"

fun decimal :: "nat \<Rightarrow> string" where
  "decimal n = (if n < 10 then [char_of (48 + n)]
                else decimal (n div 10) @ [char_of (48 + n mod 10)])"

declare decimal.simps [simp del]

section \<open>Data model\<close>

record sinkdoc =
  sd_id :: jsval
  sd_title :: jsval
  sd_blob :: "byte list"
  sd_contentType :: string
  sd_attributes :: "(string \<times> jsval) list"

datatype error = TypeError | RangeError | Thrown string

record config =
  batchSize :: int
  maxRetries :: int
  retryDelay :: int
  pluginName :: string

text \<open>
  The body of a response of the source API (\<open>response.data\<close>): either a bare array of
  records, or an object whose recognised fields are read by \<open>fetchPage\<close>. An array-valued
  field is \<open>None\<close> when the object does not have it.
\<close>

record resp_fields =
  r_documents :: "rawdoc list option"
  r_items :: "rawdoc list option"
  r_hasMore :: jsval
  r_has_more :: jsval
  r_totalCount :: jsval
  r_total :: jsval

datatype payload = PArray "rawdoc list" | PObject resp_fields

text \<open>
  What \<open>fetchPage\<close> returns as \<open>documents\<close>: an array, or (when the body is an object
  with neither \<open>documents\<close> nor \<open>items\<close>) the body itself, which has no \<open>length\<close>.
\<close>

datatype page_documents = DocArray "rawdoc list" | DocObject resp_fields

record pageData =
  pd_documents :: page_documents
  pd_hasMore :: jsval
  pd_totalCount :: jsval

record response =
  failedDocuments :: "jsval list"

datatype event =
    FetchPage nat int
  | Delay int
  | Upload "sinkdoc list"

text \<open>
  The collaborators the code calls, as oracles: the HTTP client of the source
  (page number and limit of the request), the batch-put operation of the sink (how many
  calls were made before this one, and the documents sent), the wall clock (how many
  readings were taken before this one, in milliseconds), ISO formatting of a time, the
  first eight hexadecimal digits of the MD5 digest of a serialised record, and
  \<open>Buffer.from\<close> on an array or object (\<open>None\<close> where it raises).
\<close>

record env =
  client_get :: "nat \<Rightarrow> int \<Rightarrow> error + payload"
  qbusiness_send :: "nat \<Rightarrow> sinkdoc list \<Rightarrow> error + response"
  clock :: "nat \<Rightarrow> nat"
  toISOString :: "nat \<Rightarrow> string"
  md5hex8 :: "rawdoc \<Rightarrow> string"
  bufferFromObject :: "jsval \<Rightarrow> byte list option"

text \<open>The state of a run: the calls made so far, in order, and the clock readings taken.\<close>

record world =
  events :: "event list"
  ticks :: nat

definition emit :: "event \<Rightarrow> world \<Rightarrow> world" where
  "emit e w = w\<lparr>events := events w @ [e]\<rparr>"

definition delay :: "int \<Rightarrow> world \<Rightarrow> world" where
  "delay ms w = emit (Delay ms) w"

fun uploads :: "event list \<Rightarrow> sinkdoc list list" where
  "uploads [] = []"
| "uploads (Upload b # es) = b # uploads es"
| "uploads (e # es) = uploads es"

fun delays :: "event list \<Rightarrow> int list" where
  "delays [] = []"
| "delays (Delay ms # es) = ms # delays es"
| "delays (e # es) = delays es"

fun pages :: "event list \<Rightarrow> nat list" where
  "pages [] = []"
| "pages (FetchPage p l # es) = p # pages es"
| "pages (e # es) = pages es"

section \<open>Source client\<close>

text \<open>
  \<open>DataSourceConnector.fetchPage\<close>: one request of \<open>/documents\<close> with the page number and
  the limit \<open>batchSize || 100\<close>. The body of the response is read through several shapes:
  \<open>documents\<close>, else \<open>items\<close>, else the body itself; \<open>hasMore\<close>, else \<open>has_more\<close>, else
  \<open>false\<close>; \<open>totalCount\<close>, else \<open>total\<close>, else \<open>0\<close>. A failed request is logged and
  thrown again as it is.
\<close>

definition pageLimit :: "config \<Rightarrow> int" where
  "pageLimit cfg = (if batchSize cfg \<noteq> 0 then batchSize cfg else 100)"

definition normalize_response :: "payload \<Rightarrow> pageData" where
  "normalize_response d =
     (case d of
        PArray ds \<Rightarrow>
          \<lparr>pd_documents = DocArray ds, pd_hasMore = JBool False, pd_totalCount = JNum 0\<rparr>
      | PObject f \<Rightarrow>
          \<lparr>pd_documents =
             (case r_documents f of
                Some ds \<Rightarrow> DocArray ds
              | None \<Rightarrow> (case r_items f of Some ds \<Rightarrow> DocArray ds | None \<Rightarrow> DocObject f)),
           pd_hasMore = js_or (js_or (r_hasMore f) (r_has_more f)) (JBool False),
           pd_totalCount = js_or (js_or (r_totalCount f) (r_total f)) (JNum 0)\<rparr>)"

definition fetchPage :: "env \<Rightarrow> config \<Rightarrow> nat \<Rightarrow> world \<Rightarrow> (error + pageData) \<times> world" where
  "fetchPage en cfg page w =
     (let w1 = emit (FetchPage page (pageLimit cfg)) w
      in case client_get en page (pageLimit cfg) of
           Inl e \<Rightarrow> (Inl e, w1)
         | Inr d \<Rightarrow> (Inr (normalize_response d), w1))"

text \<open>
  \<open>DataSourceConnector.fetchAll\<close>: the \<open>while (hasMore)\<close> loop, with the variables
  \<open>hasMore\<close>, \<open>page\<close> and \<open>documents\<close> as arguments. A page whose \<open>documents\<close> is a
  non-empty array is appended and the next page is requested if \<open>hasMore\<close> is truthy;
  any other page ends the loop. The wait of 100 ms follows every answered request. The
  loop need not end, so the result is an option: \<open>None\<close> is the run that never returns.
\<close>

partial_function (option) fetchAll_loop ::
  "env \<Rightarrow> config \<Rightarrow> jsval \<Rightarrow> nat \<Rightarrow> rawdoc list \<Rightarrow> world
     \<Rightarrow> ((error + rawdoc list) \<times> world) option" where
  "fetchAll_loop en cfg hasMore page documents w =
     (if truthy hasMore then
        (case fetchPage en cfg page w of
           (Inl e, w1) \<Rightarrow> Some (Inl e, w1)
         | (Inr pd, w1) \<Rightarrow>
             (case pd_documents pd of
                DocArray ds \<Rightarrow>
                  if length ds > 0
                  then fetchAll_loop en cfg (js_or (pd_hasMore pd) (JBool False)) (page + 1)
                         (documents @ ds) (delay 100 w1)
                  else fetchAll_loop en cfg (JBool False) page documents (delay 100 w1)
              | DocObject f \<Rightarrow>
                  fetchAll_loop en cfg (JBool False) page documents (delay 100 w1)))
      else Some (Inr documents, w))"

declare fetchAll_loop.simps [code]

definition fetchAll :: "env \<Rightarrow> config \<Rightarrow> world \<Rightarrow> ((error + rawdoc list) \<times> world) option" where
  "fetchAll en cfg w = fetchAll_loop en cfg (JBool True) 1 [] w"


section \<open>Document transformer\<close>

text \<open>
  \<open>Buffer.from(value, 'utf-8')\<close>: the bytes of a string; a number, a boolean,
  \<open>null\<close> or \<open>undefined\<close> raises a \<open>TypeError\<close>.
\<close>

definition Buffer_from :: "env \<Rightarrow> jsval \<Rightarrow> error + byte list" where
  "Buffer_from en v =
     (case v of
        JStr s \<Rightarrow> Inr (utf8 s)
      | JArr xs \<Rightarrow> (case bufferFromObject en v of None \<Rightarrow> Inl TypeError | Some bs \<Rightarrow> Inr bs)
      | JObj fs \<Rightarrow> (case bufferFromObject en v of None \<Rightarrow> Inl TypeError | Some bs \<Rightarrow> Inr bs)
      | _ \<Rightarrow> Inl TypeError)"

text \<open>\<open>Date.now()\<close> and \<open>new Date()\<close>: one more reading of the clock.\<close>

definition now :: "env \<Rightarrow> world \<Rightarrow> nat \<times> world" where
  "now en w = (clock en (ticks w), w\<lparr>ticks := Suc (ticks w)\<rparr>)"

text \<open>\<open>PluginManager.generateDocumentId\<close>: the plugin name, the time in milliseconds and
  the first eight digits of the digest, joined by hyphens.\<close>

definition generateDocumentId :: "env \<Rightarrow> config \<Rightarrow> rawdoc \<Rightarrow> world \<Rightarrow> jsval \<times> world" where
  "generateDocumentId en cfg document w =
     (let source = pluginName cfg;
          (timestamp, w1) = now en w;
          hash = md5hex8 en document
      in (JStr (source @ ''-'' @ decimal timestamp @ ''-'' @ hash), w1))"

text \<open>\<open>PluginManager.extractCustomAttributes\<close>: \<open>author\<close>, \<open>category\<close> and \<open>tags\<close>, each
  copied when it is truthy.\<close>

definition extractCustomAttributes :: "rawdoc \<Rightarrow> (string \<times> jsval) list" where
  "extractCustomAttributes document =
     (if truthy (get_field document ''author'')
      then [(''author'', get_field document ''author'')] else [])
     @ (if truthy (get_field document ''category'')
        then [(''category'', get_field document ''category'')] else [])
     @ (if truthy (get_field document ''tags'')
        then [(''tags'', get_field document ''tags'')] else [])"

text \<open>\<open>value || new Date().toISOString()\<close>: the clock is read only when the value is falsy.\<close>

definition or_now :: "env \<Rightarrow> jsval \<Rightarrow> world \<Rightarrow> jsval \<times> world" where
  "or_now en v w =
     (if truthy v then (v, w)
      else (let (t, w1) = now en w in (JStr (toISOString en t), w1)))"

text \<open>
  \<open>PluginManager.transformDocument\<close>. The fields of the object literal are evaluated in
  the order they are written: the id (generated when the one of the record is falsy), the
  title, the blob (where \<open>Buffer.from\<close> may raise, which ends the call), the content type
  and the attributes.
\<close>

definition transformDocument ::
  "env \<Rightarrow> config \<Rightarrow> rawdoc \<Rightarrow> world \<Rightarrow> (error + sinkdoc) \<times> world" where
  "transformDocument en cfg document w =
     (let (ident, w1) =
            (if truthy (get_field document ''id'') then (get_field document ''id'', w)
             else generateDocumentId en cfg document w);
          title = js_or (js_or (get_field document ''title'') (get_field document ''name''))
                    (JStr ''Untitled'')
      in case Buffer_from en
                (js_or (js_or (get_field document ''content'') (get_field document ''body''))
                   (JStr [])) of
           Inl e \<Rightarrow> (Inl e, w1)
         | Inr blob \<Rightarrow>
             (let source_uri = js_or (js_or (get_field document ''url'')
                                  (get_field document ''source'')) (JStr []);
                  (created_at, w2) = or_now en (get_field document ''createdAt'') w1;
                  (updated_at, w3) = or_now en (get_field document ''updatedAt'') w2
              in (Inr \<lparr>sd_id = ident, sd_title = title, sd_blob = blob,
                        sd_contentType = ''PLAIN_TEXT'',
                        sd_attributes =
                          [(''_source_uri'', source_uri), (''_created_at'', created_at),
                           (''_updated_at'', updated_at)]
                          @ extractCustomAttributes document\<rparr>, w3)))"

text \<open>\<open>documents.map(doc => this.transformDocument(doc))\<close>: left to right, the first
  exception ends it.\<close>

fun transformAll ::
  "env \<Rightarrow> config \<Rightarrow> rawdoc list \<Rightarrow> world \<Rightarrow> (error + sinkdoc list) \<times> world" where
  "transformAll en cfg [] w = (Inr [], w)"
| "transformAll en cfg (d # ds) w =
     (case transformDocument en cfg d w of
        (Inl e, w1) \<Rightarrow> (Inl e, w1)
      | (Inr sd, w1) \<Rightarrow>
          (case transformAll en cfg ds w1 of
             (Inl e, w2) \<Rightarrow> (Inl e, w2)
           | (Inr sds, w2) \<Rightarrow> (Inr (sd # sds), w2)))"

text \<open>\<open>PluginManager.fetchDocuments\<close>: fetch everything, then transform everything.\<close>

definition fetchDocuments ::
  "env \<Rightarrow> config \<Rightarrow> world \<Rightarrow> ((error + sinkdoc list) \<times> world) option" where
  "fetchDocuments en cfg w =
     (case fetchAll en cfg w of
        None \<Rightarrow> None
      | Some (Inl e, w1) \<Rightarrow> Some (Inl e, w1)
      | Some (Inr documents, w1) \<Rightarrow> Some (transformAll en cfg documents w1))"

section \<open>Batcher\<close>

text \<open>\<open>Array.prototype.slice(start, end)\<close>, with its treatment of negative and
  out-of-range indices.\<close>

definition array_slice :: "'a list \<Rightarrow> int \<Rightarrow> int \<Rightarrow> 'a list" where
  "array_slice xs start fin =
     (let len = int (length xs);
          k = (if start < 0 then max (len + start) 0 else min start len);
          final = (if fin < 0 then max (len + fin) 0 else min fin len)
      in take (nat (final - k)) (drop (nat k) xs))"

text \<open>
  An array holds at most \<open>2^32 - 1\<close> elements: \<open>push\<close> on a full array raises a
  \<open>RangeError\<close>. The array \<open>documents\<close> is under the same bound. A list is not, so the
  capacity that \<open>batches\<close> runs into is taken to be no smaller than the list that was
  given: for every list that is an array it is \<open>2^32 - 1\<close>.
\<close>

definition max_array_length :: nat where
  "max_array_length = 2 ^ 32 - 1"

definition array_capacity :: "'a list \<Rightarrow> nat" where
  "array_capacity documents = max max_array_length (length documents)"

text \<open>
  \<open>PluginManager.createBatches\<close>: the loop \<open>for (i = 0; i < documents.length; i += batchSize)\<close>
  with the index \<open>i\<close> and the array \<open>batches\<close> as arguments. Every iteration pushes one
  slice, and the push raises when \<open>batches\<close> is full; so the loop always ends, with the
  batches or with the \<open>RangeError\<close>.
\<close>

function createBatches_loop ::
  "'a list \<Rightarrow> int \<Rightarrow> int \<Rightarrow> 'a list list \<Rightarrow> error + 'a list list" where
  "createBatches_loop documents bsize i batches =
     (if i < int (length documents)
      then (if length batches < array_capacity documents
            then createBatches_loop documents bsize (i + bsize)
                   (batches @ [array_slice documents i (i + bsize)])
            else Inl RangeError)
      else Inr batches)"
  by pat_completeness auto
termination
  by (relation "measure (\<lambda>(documents, bsize, i, batches).
        array_capacity documents - length batches)") auto

declare createBatches_loop.simps [simp del]

definition createBatches :: "'a list \<Rightarrow> int \<Rightarrow> error + 'a list list" where
  "createBatches documents bsize = createBatches_loop documents bsize 0 []"

section \<open>Sync orchestrator\<close>

text \<open>
  \<open>PluginManager.uploadBatch\<close>: one batch-put call. A response that lists failed documents
  is logged and returned like any other; only a failed call raises.
\<close>

definition uploadBatch :: "env \<Rightarrow> sinkdoc list \<Rightarrow> world \<Rightarrow> (error + response) \<times> world" where
  "uploadBatch en documents w =
     (qbusiness_send en (length (uploads (events w))) documents, emit (Upload documents) w)"

text \<open>
  \<open>PluginManager.retryBatch\<close>: the loop \<open>for (attempt = 1; attempt <= maxRetries; attempt++)\<close>.
  Each attempt waits \<open>baseDelay * 2^(attempt - 1)\<close> and uploads; a success returns, a
  failure at \<open>attempt = maxRetries\<close> is thrown again, any other failure goes on. When the
  loop has no iteration left the function returns normally.
\<close>

function retryBatch_loop ::
  "env \<Rightarrow> config \<Rightarrow> sinkdoc list \<Rightarrow> int \<Rightarrow> world \<Rightarrow> (error + unit) \<times> world" where
  "retryBatch_loop en cfg batch attempt w =
     (if attempt \<le> maxRetries cfg then
        (case uploadBatch en batch (delay (retryDelay cfg * 2 ^ nat (attempt - 1)) w) of
           (Inr r, w1) \<Rightarrow> (Inr (), w1)
         | (Inl e, w1) \<Rightarrow>
             if attempt = maxRetries cfg then (Inl e, w1)
             else retryBatch_loop en cfg batch (attempt + 1) w1)
      else (Inr (), w))"
  by pat_completeness auto
termination
  by (relation "measure (\<lambda>(en, cfg, batch, attempt, w). nat (maxRetries cfg + 1 - attempt))") auto

declare retryBatch_loop.simps [simp del]

definition retryBatch ::
  "env \<Rightarrow> config \<Rightarrow> sinkdoc list \<Rightarrow> nat \<Rightarrow> world \<Rightarrow> (error + unit) \<times> world" where
  "retryBatch en cfg batch batchNumber w = retryBatch_loop en cfg batch 1 w"

text \<open>
  \<open>PluginManager.processBatches\<close>: the loop over the batches, with the index \<open>i\<close> as
  argument. The wait of one second is in the \<open>try\<close> block, after a first upload that
  succeeded, when the batch is not the last; a failed first upload goes to
  \<open>retryBatch\<close>, whose exception leaves the loop.
\<close>

function processBatches_loop ::
  "env \<Rightarrow> config \<Rightarrow> sinkdoc list list \<Rightarrow> nat \<Rightarrow> world \<Rightarrow> (error + unit) \<times> world" where
  "processBatches_loop en cfg batches i w =
     (if i < length batches then
        (case uploadBatch en (batches ! i) w of
           (Inr r, w1) \<Rightarrow>
             processBatches_loop en cfg batches (i + 1)
               (if int i < int (length batches) - 1 then delay 1000 w1 else w1)
         | (Inl e, w1) \<Rightarrow>
             (case retryBatch en cfg (batches ! i) (i + 1) w1 of
                (Inl e', w2) \<Rightarrow> (Inl e', w2)
              | (Inr u, w2) \<Rightarrow> processBatches_loop en cfg batches (i + 1) w2))
      else (Inr (), w))"
  by pat_completeness auto
termination
  by (relation "measure (\<lambda>(en, cfg, batches, i, w). length batches - i)") auto

declare processBatches_loop.simps [simp del]

text \<open>The batches are made first; a \<open>RangeError\<close> of \<open>createBatches\<close> leaves
  \<open>processBatches\<close> before any upload. The result is always \<open>Some\<close>: it is an option
  because \<open>sync\<close>, which ends with this call, need not get here.\<close>

definition processBatches ::
  "env \<Rightarrow> config \<Rightarrow> sinkdoc list \<Rightarrow> world \<Rightarrow> ((error + unit) \<times> world) option" where
  "processBatches en cfg documents w =
     (case createBatches documents (batchSize cfg) of
        Inl e \<Rightarrow> Some (Inl e, w)
      | Inr batches \<Rightarrow> Some (processBatches_loop en cfg batches 0 w))"

text \<open>\<open>PluginManager.sync\<close>: fetch and transform, return at once when there is nothing,
  else upload in batches. Every exception is logged and thrown again.\<close>

definition sync :: "env \<Rightarrow> config \<Rightarrow> world \<Rightarrow> ((error + unit) \<times> world) option" where
  "sync en cfg w =
     (case fetchDocuments en cfg w of
        None \<Rightarrow> None
      | Some (Inl e, w1) \<Rightarrow> Some (Inl e, w1)
      | Some (Inr documents, w1) \<Rightarrow>
          if length documents = 0 then Some (Inr (), w1)
          else processBatches en cfg documents w1)"


section \<open>Concrete collaborators for the examples\<close>

definition ok :: "error + response" where
  "ok = Inr \<lparr>failedDocuments = []\<rparr>"

definition throttled :: "nat \<Rightarrow> error" where
  "throttled n = Thrown (''throttled on call '' @ decimal n)"

text \<open>A sink that rejects its first \<open>k\<close> calls, and one that rejects every call from
  call \<open>k\<close> on.\<close>

definition fails_first :: "nat \<Rightarrow> nat \<Rightarrow> sinkdoc list \<Rightarrow> error + response" where
  "fails_first k n b = (if n < k then Inl (throttled n) else ok)"

definition fails_from :: "nat \<Rightarrow> nat \<Rightarrow> sinkdoc list \<Rightarrow> error + response" where
  "fails_from k n b = (if k \<le> n then Inl (throttled n) else ok)"

definition no_source :: "nat \<Rightarrow> int \<Rightarrow> error + payload" where
  "no_source page limit = Inl (Thrown ''ECONNREFUSED'')"

definition ex_env ::
  "(nat \<Rightarrow> int \<Rightarrow> error + payload) \<Rightarrow> (nat \<Rightarrow> sinkdoc list \<Rightarrow> error + response) \<Rightarrow> env" where
  "ex_env get send =
     \<lparr>client_get = get, qbusiness_send = send, clock = (\<lambda>n. 1700000000000 + n),
      toISOString = decimal, md5hex8 = (\<lambda>d. ''0a1b2c3d''),
      bufferFromObject = (\<lambda>v. None)\<rparr>"

definition ex_config :: "int \<Rightarrow> int \<Rightarrow> int \<Rightarrow> config" where
  "ex_config bsize retries base =
     \<lparr>batchSize = bsize, maxRetries = retries, retryDelay = base, pluginName = ''test-plugin''\<rparr>"

definition w0 :: world where
  "w0 = \<lparr>events = [], ticks = 0\<rparr>"

definition ex_doc :: "nat \<Rightarrow> sinkdoc" where
  "ex_doc n =
     \<lparr>sd_id = JNum (int n), sd_title = JStr ''Untitled'', sd_blob = [],
      sd_contentType = ''PLAIN_TEXT'', sd_attributes = []\<rparr>"

section \<open>Expected traces\<close>

text \<open>One retry attempt as \<open>retryBatch\<close> makes it: the wait of
  \<open>baseDelay * 2^(attempt - 1)\<close>, then the upload of the batch.\<close>

definition attempt_events :: "config \<Rightarrow> sinkdoc list \<Rightarrow> nat \<Rightarrow> event list" where
  "attempt_events cfg batch attempt = [Delay (retryDelay cfg * 2 ^ (attempt - 1)), Upload batch]"

text \<open>The records a page carries (none when \<open>documents\<close> is not an array), whether the
  loop of \<open>fetchAll\<close> goes on after a page, the records of page \<open>q\<close> of a source, and
  the two calls \<open>fetchAll\<close> makes for a page: the request and the wait of 100 ms.\<close>

definition page_docs :: "pageData \<Rightarrow> rawdoc list" where
  "page_docs pd = (case pd_documents pd of DocArray ds \<Rightarrow> ds | DocObject f \<Rightarrow> [])"

definition continues :: "pageData \<Rightarrow> bool" where
  "continues pd = (page_docs pd \<noteq> [] \<and> truthy (pd_hasMore pd))"

definition fetched_docs :: "env \<Rightarrow> config \<Rightarrow> nat \<Rightarrow> rawdoc list" where
  "fetched_docs en cfg q =
     (case client_get en q (pageLimit cfg) of
        Inl e \<Rightarrow> []
      | Inr d \<Rightarrow> page_docs (normalize_response d))"

definition page_events :: "config \<Rightarrow> nat \<Rightarrow> event list" where
  "page_events cfg q = [FetchPage q (pageLimit cfg), Delay 100]"

text \<open>A source of three records on two pages, and one with no record at all.\<close>

definition two_pages :: "nat \<Rightarrow> int \<Rightarrow> error + payload" where
  "two_pages page limit =
     (if page = 1 then
        Inr (PObject \<lparr>r_documents = Some [[(''id'', JStr ''a'')], [(''id'', JStr ''b'')]],
               r_items = None, r_hasMore = JBool True, r_has_more = JUndefined,
               r_totalCount = JNum 3, r_total = JUndefined\<rparr>)
      else if page = 2 then
        Inr (PObject \<lparr>r_documents = None, r_items = Some [[(''id'', JStr ''c'')]],
               r_hasMore = JUndefined, r_has_more = JBool False,
               r_totalCount = JNum 3, r_total = JUndefined\<rparr>)
      else Inl (Thrown ''404''))"

definition empty_source :: "nat \<Rightarrow> int \<Rightarrow> error + payload" where
  "empty_source page limit =
     Inr (PObject \<lparr>r_documents = Some [], r_items = None, r_hasMore = JBool False,
            r_has_more = JUndefined, r_totalCount = JNum 0, r_total = JUndefined\<rparr>)"

definition fails_on_page :: "nat \<Rightarrow> nat \<Rightarrow> int \<Rightarrow> error + payload" where
  "fails_on_page n page limit =
     (if page = n then Inl (Thrown ''ETIMEDOUT'') else two_pages page limit)"


section \<open>Traces\<close>

lemma uploads_append [simp]: "uploads (xs @ ys) = uploads xs @ uploads ys"
  by (induction xs rule: uploads.induct) simp_all

lemma delays_append [simp]: "delays (xs @ ys) = delays xs @ delays ys"
  by (induction xs rule: delays.induct) simp_all

lemma pages_append [simp]: "pages (xs @ ys) = pages xs @ pages ys"
  by (induction xs rule: pages.induct) simp_all

lemma events_emit [simp]: "events (emit e w) = events w @ [e]"
  by (simp add: emit_def)

lemma ticks_emit [simp]: "ticks (emit e w) = ticks w"
  by (simp add: emit_def)

lemma events_delay [simp]: "events (delay ms w) = events w @ [Delay ms]"
  by (simp add: delay_def)

lemma ticks_delay [simp]: "ticks (delay ms w) = ticks w"
  by (simp add: delay_def)


section \<open>The batcher\<close>

lemma ceil_div_int:
  fixes n s :: int
  assumes "0 < s"
  shows "- (- n div s) = (n + s - 1) div s"
proof -
  define q where "q = n div s"
  define r where "r = n mod s"
  have n: "n = q * s + r" by (simp add: q_def r_def)
  have r: "0 \<le> r" "r < s" using assms by (simp_all add: r_def)
  have lhs: "- n div s = (if r = 0 then - q else - q - 1)"
    using assms by (simp add: zdiv_zminus1_eq_if q_def r_def)
  have "(n + s - 1) div s = (q * s + (r + s - 1)) div s" by (simp add: n algebra_simps)
  also have "\<dots> = q + (r + s - 1) div s" using assms by simp
  also have "(r + s - 1) div s = (if r = 0 then 0 else 1)"
  proof (cases "r = 0")
    case True then show ?thesis using assms by (simp add: div_pos_pos_trivial)
  next
    case False
    then have r1: "0 \<le> r - 1" "r - 1 < s" using r by simp_all
    have "(r + s - 1) div s = ((r - 1) + s) div s" by (simp add: algebra_simps)
    also have "\<dots> = (r - 1) div s + 1" using assms by simp
    also have "(r - 1) div s = 0" using r1 by (simp add: div_pos_pos_trivial)
    finally have "(r + s - 1) div s = 1" by simp
    then show ?thesis using False by simp
  qed
  finally show ?thesis using lhs by simp
qed

lemma ceil_div: "0 < s \<Longrightarrow> \<lceil>real n / real_of_int s\<rceil> = (int n + s - 1) div s"
proof -
  assume s: "0 < s"
  have "\<lceil>real n / real_of_int s\<rceil> = \<lceil>real_of_int (int n) / real_of_int s\<rceil>" by simp
  also have "\<dots> = - (- int n div s)" by (rule ceiling_divide_eq_div)
  also have "\<dots> = (int n + s - 1) div s" using s by (rule ceil_div_int)
  finally show ?thesis .
qed

lemma array_slice_chunk:
  assumes "0 \<le> i" "i < int (length xs)" "0 < s"
  shows "array_slice xs i (i + s) = take (nat s) (drop (nat i) xs)"
  using assms by (auto simp: array_slice_def Let_def min_def)


lemma chunk_count:
  fixes n s :: nat
  assumes "0 < s" "0 < n"
  shows "Suc ((n - s + s - 1) div s) = (n + s - 1) div s"
proof -
  have s0: "s \<noteq> 0" using assms by simp
  have e: "n + s - 1 = (n - 1) + s" using assms by arith
  have d: "((n - 1) + s) div s = Suc ((n - 1) div s)"
    by (simp only: div_add_self2[OF s0] Suc_eq_plus1)
  show ?thesis
  proof (cases "s \<le> n")
    case True
    have a: "n - s + s = n" using True by simp
    show ?thesis by (simp only: a e d)
  next
    case False
    have a: "n - s + s - 1 = s - 1" using False by simp
    have z: "(s - 1) div s = 0" using assms by simp
    have z': "(n - 1) div s = 0" using False assms by simp
    show ?thesis by (simp only: a e d z z')
  qed
qed

lemma createBatches_loop_pos:
  assumes "0 < s" "0 \<le> i" "length acc + (length D - nat i) \<le> array_capacity D"
  shows "\<exists>bs. createBatches_loop D s i acc = Inr (acc @ bs)
          \<and> concat bs = drop (nat i) D
          \<and> length bs = (length D - nat i + nat s - 1) div nat s
          \<and> (\<forall>b\<in>set (butlast bs). length b = nat s)
          \<and> (\<forall>b\<in>set bs. b \<noteq> [] \<and> length b \<le> nat s)"
  using assms(2,3)
proof (induction "length D - nat i" arbitrary: i acc rule: less_induct)
  case less
  show ?case
  proof (cases "i < int (length D)")
    case False
    then have "createBatches_loop D s i acc = Inr (acc @ [])"
      by (subst createBatches_loop.simps) simp
    moreover have "length D - nat i = 0" using False by simp
    moreover have "(nat s - 1) div nat s = 0" using assms(1) by simp
    ultimately show ?thesis using False by (intro exI[of _ "[]"]) simp
  next
    case True
    define x where "x = take (nat s) (drop (nat i) D)"
    have rem: "0 < length D - nat i" using True less.prems(1) by simp
    have room: "length acc < array_capacity D" using rem less.prems(2) by simp
    have sl: "array_slice D i (i + s) = x"
      using less.prems(1) True assms(1) by (simp add: array_slice_chunk x_def)
    have step: "createBatches_loop D s i acc = createBatches_loop D s (i + s) (acc @ [x])"
      using True room by (subst createBatches_loop.simps) (simp add: sl)
    have nati: "nat (i + s) = nat i + nat s"
      using less.prems(1) assms(1) by (simp add: nat_add_distrib)
    have "length D - nat (i + s) < length D - nat i"
      using True less.prems(1) assms(1) nati by simp
    moreover have "0 \<le> i + s" using less.prems(1) assms(1) by simp
    moreover have "length (acc @ [x]) + (length D - nat (i + s)) \<le> array_capacity D"
      using less.prems(2) rem assms(1) nati by simp
    ultimately obtain bs where bs:
      "createBatches_loop D s (i + s) (acc @ [x]) = Inr ((acc @ [x]) @ bs)"
      "concat bs = drop (nat (i + s)) D"
      "length bs = (length D - nat (i + s) + nat s - 1) div nat s"
      "\<forall>b\<in>set (butlast bs). length b = nat s"
      "\<forall>b\<in>set bs. b \<noteq> [] \<and> length b \<le> nat s"
      using less.hyps[of "i + s" "acc @ [x]"] by blast
    have xne: "x \<noteq> []" using rem assms(1) by (simp add: x_def)
    have xle: "length x \<le> nat s" by (simp add: x_def)
    have dd: "drop (nat i + nat s) D = drop (nat s) (drop (nat i) D)"
      by (simp add: add.commute)
    have c: "concat (x # bs) = drop (nat i) D"
      by (simp only: concat.simps bs(2) x_def nati dd append_take_drop_id)
    have l: "length (x # bs) = (length D - nat i + nat s - 1) div nat s"
      using chunk_count[of "nat s" "length D - nat i"] assms(1) rem bs(3) nati
      by (simp add: algebra_simps)
    have full: "bs \<noteq> [] \<Longrightarrow> length x = nat s"
    proof -
      assume "bs \<noteq> []"
      then have "drop (nat (i + s)) D \<noteq> []" using bs(2,5) by (cases bs) auto
      then have "nat i + nat s < length D" using nati by simp
      then show ?thesis by (simp add: x_def)
    qed
    have b: "\<forall>b\<in>set (butlast (x # bs)). length b = nat s"
      using bs(4) full by simp
    have "createBatches_loop D s i acc = Inr (acc @ (x # bs))" using step bs(1) by simp
    with c l b bs(5) xne xle show ?thesis
      by (intro exI[of _ "x # bs"]) simp
  qed
qed

lemma createBatches_room: "length [] + (length D - nat 0) \<le> array_capacity D"
  by (simp add: array_capacity_def)

text \<open>
  Claim C1. For every list of documents and every positive batch size, \<open>createBatches\<close>
  returns; the batches, concatenated in order, are the input; their number is the ceiling
  of the length divided by the size; every batch but the last has exactly the batch size,
  and every batch is non-empty and no longer than the batch size.
\<close>

theorem createBatches_partition:
  assumes "0 < s"
  shows "\<exists>bs. createBatches D s = Inr bs
          \<and> concat bs = D
          \<and> int (length bs) = \<lceil>real (length D) / real_of_int s\<rceil>
          \<and> (\<forall>j. Suc j < length bs \<longrightarrow> int (length (bs ! j)) = s)
          \<and> (\<forall>b\<in>set bs. b \<noteq> [] \<and> int (length b) \<le> s)"
proof -
  obtain bs where bs:
      "createBatches_loop D s 0 [] = Inr ([] @ bs)"
      "concat bs = drop (nat 0) D"
      "length bs = (length D - nat 0 + nat s - 1) div nat s"
      "\<forall>b\<in>set (butlast bs). length b = nat s"
      "\<forall>b\<in>set bs. b \<noteq> [] \<and> length b \<le> nat s"
    using createBatches_loop_pos[OF assms _ createBatches_room, of D] by auto
  have "int (length bs) = (int (length D) + s - 1) div s"
  proof -
    have "int ((length D + nat s - 1) div nat s) = int (length D + nat s - 1) div int (nat s)"
      by (simp add: zdiv_int)
    also have "int (length D + nat s - 1) = int (length D) + s - 1"
      using assms by (simp add: of_nat_diff)
    finally show ?thesis using bs(3) assms by simp
  qed
  then have len: "int (length bs) = \<lceil>real (length D) / real_of_int s\<rceil>"
    using assms by (simp add: ceil_div)
  have nth: "\<forall>j. Suc j < length bs \<longrightarrow> int (length (bs ! j)) = s"
  proof (intro allI impI)
    fix j assume j: "Suc j < length bs"
    then have "j < length (butlast bs)" by simp
    then have "butlast bs ! j \<in> set (butlast bs)" by (rule nth_mem)
    moreover have "butlast bs ! j = bs ! j" using j by (simp add: nth_butlast)
    ultimately show "int (length (bs ! j)) = s" using bs(4) assms by auto
  qed
  have "\<forall>b\<in>set bs. b \<noteq> [] \<and> int (length b) \<le> s" using bs(5) assms by auto
  with bs(1,2) len nth show ?thesis by (simp add: createBatches_def)
qed

theorem createBatches_partition_witness:
  "(0::int) < 2 \<and>
   (\<exists>bs. createBatches [1, 2, 3, 4, 5 :: nat] 2 = Inr bs
      \<and> concat bs = [1, 2, 3, 4, 5]
      \<and> int (length bs) = \<lceil>real (length [1, 2, 3, 4, 5 :: nat]) / real_of_int 2\<rceil>
      \<and> (\<forall>j. Suc j < length bs \<longrightarrow> int (length (bs ! j)) = 2)
      \<and> (\<forall>b\<in>set bs. b \<noteq> [] \<and> int (length b) \<le> 2))"
  using createBatches_partition [of 2 "[1, 2, 3, 4, 5 :: nat]"] by simp




section \<open>The retry loop\<close>

lemma retryBatch_loop_succeeds:
  assumes "int m < maxRetries cfg - int a"
    and "\<forall>j<m. isl (qbusiness_send en (length (uploads (events w)) + j) batch)"
    and "\<not> isl (qbusiness_send en (length (uploads (events w)) + m) batch)"
  shows "retryBatch_loop en cfg batch (int (Suc a)) w =
           (Inr (), w\<lparr>events := events w @
              concat (map (attempt_events cfg batch) [Suc a..<Suc a + Suc m])\<rparr>)"
  using assms
proof (induction m arbitrary: a w)
  case 0
  from 0(3) obtain r where r: "qbusiness_send en (length (uploads (events w))) batch = Inr r"
    by (cases "qbusiness_send en (length (uploads (events w))) batch") auto
  show ?case
    using 0(1) r
    by (subst retryBatch_loop.simps)
       (simp add: uploadBatch_def attempt_events_def emit_def delay_def)
next
  case (Suc m)
  let ?n = "length (uploads (events w))"
  let ?w1 = "emit (Upload batch) (delay (retryDelay cfg * 2 ^ a) w)"
  from Suc.prems(2) have "isl (qbusiness_send en (?n + 0) batch)" by blast
  then obtain e where e: "qbusiness_send en ?n batch = Inl e"
    by (cases "qbusiness_send en ?n batch") auto
  have n1: "length (uploads (events ?w1)) = Suc ?n" by simp
  have step: "retryBatch_loop en cfg batch (int (Suc a)) w
                = retryBatch_loop en cfg batch (int (Suc (Suc a))) ?w1"
    using Suc.prems(1) e
    by (subst retryBatch_loop.simps) (simp add: uploadBatch_def add.commute)
  define X where "X = concat (map (attempt_events cfg batch) [Suc (Suc a)..<Suc (Suc a) + Suc m])"
  have IH: "retryBatch_loop en cfg batch (int (Suc (Suc a))) ?w1 =
          (Inr (), ?w1\<lparr>events := events ?w1 @ X\<rparr>)"
    unfolding X_def
  proof (rule Suc.IH)
    show "int m < maxRetries cfg - int (Suc a)" using Suc.prems(1) by simp
    show "\<forall>j<m. isl (qbusiness_send en (length (uploads (events ?w1)) + j) batch)"
      using Suc.prems(2) unfolding n1 by (metis Suc_less_eq add_Suc_shift)
    show "\<not> isl (qbusiness_send en (length (uploads (events ?w1)) + m) batch)"
      using Suc.prems(3) unfolding n1 by simp
  qed
  have upt: "[Suc a..<Suc a + Suc (Suc m)] = Suc a # [Suc (Suc a)..<Suc (Suc a) + Suc m]"
    by (simp add: upt_rec)
  have cc: "concat (map (attempt_events cfg batch) [Suc a..<Suc a + Suc (Suc m)])
              = attempt_events cfg batch (Suc a) @ X"
    unfolding X_def upt by (simp only: list.map concat.simps)
  show ?case
    unfolding step IH cc by (simp add: attempt_events_def emit_def delay_def)
qed



lemma retryBatch_loop_uploads:
  "\<exists>m. uploads (events (snd (retryBatch_loop en cfg batch a w)))
         = uploads (events w) @ replicate m batch"
proof (induction en cfg batch a w rule: retryBatch_loop.induct)
  case (1 en cfg batch attempt w)
  let ?w1 = "emit (Upload batch) (delay (retryDelay cfg * 2 ^ nat (attempt - 1)) w)"
  let ?r = "qbusiness_send en (length (uploads (events w))) batch"
  have u1: "uploads (events ?w1) = uploads (events w) @ replicate 1 batch" by simp
  show ?case
  proof (cases "attempt \<le> maxRetries cfg")
    case False
    then have "retryBatch_loop en cfg batch attempt w = (Inr (), w)"
      by (subst retryBatch_loop.simps) simp
    then show ?thesis by (intro exI[of _ 0]) simp
  next
    case True
    show ?thesis
    proof (cases "isl ?r \<and> attempt \<noteq> maxRetries cfg")
      case False
      then have "snd (retryBatch_loop en cfg batch attempt w) = ?w1"
        using True
        by (subst retryBatch_loop.simps) (auto simp: uploadBatch_def split: sum.splits)
      with u1 show ?thesis by metis
    next
      case cont: True
      then obtain e where e: "?r = Inl e" by (cases ?r) auto
      have up: "uploadBatch en batch (delay (retryDelay cfg * 2 ^ nat (attempt - 1)) w) = (Inl e, ?w1)"
        using e by (simp add: uploadBatch_def)
      have step: "retryBatch_loop en cfg batch attempt w
                    = retryBatch_loop en cfg batch (attempt + 1) ?w1"
        using True cont up by (subst retryBatch_loop.simps) simp
      from "1.IH"[OF True up[symmetric] refl] cont
      obtain m where "uploads (events (snd (retryBatch_loop en cfg batch (attempt + 1) ?w1)))
                        = uploads (events ?w1) @ replicate m batch" by auto
      then have "uploads (events (snd (retryBatch_loop en cfg batch attempt w)))
                   = uploads (events w) @ replicate (Suc m) batch"
        unfolding step by simp
      then show ?thesis by blast
    qed
  qed
qed

section \<open>Upload with retry\<close>

lemma uploads_attempts:
  "uploads (concat (map (attempt_events cfg batch) xs)) = replicate (length xs) batch"
  by (induction xs) (simp_all add: attempt_events_def)

lemma delays_attempts:
  "delays (concat (map (attempt_events cfg batch) xs))
     = map (\<lambda>attempt. retryDelay cfg * 2 ^ (attempt - 1)) xs"
  by (induction xs) (simp_all add: attempt_events_def)

lemma backoff_increasing:
  assumes "0 < (d::int)"
  shows "sorted_wrt (<) (map (\<lambda>attempt. d * 2 ^ (attempt - 1)) [Suc 0..<n])"
proof -
  have "sorted_wrt (\<lambda>x y. d * 2 ^ (x - 1) < d * 2 ^ (y - 1)) [Suc 0..<n]"
  proof (rule sorted_wrt_mono_rel[of _ "(<)"])
    fix x y assume "x \<in> set [Suc 0..<n]" "y \<in> set [Suc 0..<n]" "x < y"
    then have "x - 1 < y - 1" by auto
    then have "(2::int) ^ (x - 1) < 2 ^ (y - 1)" by simp
    then show "d * 2 ^ (x - 1) < d * 2 ^ (y - 1)" using assms by simp
  next
    show "sorted_wrt (<) [Suc 0..<n]" by (rule sorted_wrt_upt)
  qed
  then show ?thesis by (simp add: sorted_wrt_map)
qed

text \<open>
  Claim C2 (amended). If the first \<open>k < maxRetries\<close> uploads made by \<open>retryBatch\<close> raise
  and the next one succeeds, \<open>retryBatch\<close> returns normally after exactly \<open>k + 1\<close> uploads
  of the batch, each preceded by a wait of \<open>baseDelay * 2^(attempt - 1)\<close>; the waits are
  strictly increasing when \<open>baseDelay\<close> is positive.
\<close>

theorem retryBatch_succeeds_after_failures:
  assumes "int k < maxRetries cfg"
    and "\<forall>j<k. isl (qbusiness_send en (length (uploads (events w)) + j) batch)"
    and "\<not> isl (qbusiness_send en (length (uploads (events w)) + k) batch)"
  shows "retryBatch en cfg batch batchNumber w =
           (Inr (), w\<lparr>events := events w @
              concat (map (attempt_events cfg batch) [1..<k + 2])\<rparr>)
       \<and> uploads (concat (map (attempt_events cfg batch) [1..<k + 2])) = replicate (k + 1) batch
       \<and> delays (concat (map (attempt_events cfg batch) [1..<k + 2]))
           = map (\<lambda>attempt. retryDelay cfg * 2 ^ (attempt - 1)) [1..<k + 2]
       \<and> (0 < retryDelay cfg \<longrightarrow>
            sorted_wrt (<) (map (\<lambda>attempt. retryDelay cfg * 2 ^ (attempt - 1)) [1..<k + 2]))"
proof -
  have "int k < maxRetries cfg - int 0" using assms(1) by simp
  from retryBatch_loop_succeeds[OF this assms(2,3)]
  have "retryBatch en cfg batch batchNumber w =
           (Inr (), w\<lparr>events := events w @
              concat (map (attempt_events cfg batch) [1..<k + 2])\<rparr>)"
    by (simp add: retryBatch_def)
  moreover have "uploads (concat (map (attempt_events cfg batch) [1..<k + 2]))
                   = replicate (k + 1) batch"
    unfolding uploads_attempts by simp
  moreover have "0 < retryDelay cfg \<longrightarrow>
            sorted_wrt (<) (map (\<lambda>attempt. retryDelay cfg * 2 ^ (attempt - 1)) [1..<k + 2])"
    using backoff_increasing[of "retryDelay cfg" "k + 2"] by simp
  ultimately show ?thesis by (simp only: delays_attempts simp_thms)
qed

theorem retryBatch_succeeds_after_failures_witness:
  "retryBatch (ex_env no_source (fails_first 2)) (ex_config 10 3 1000) [ex_doc 7] 1 w0 =
     (Inr (), w0\<lparr>events := [Delay 1000, Upload [ex_doc 7], Delay 2000, Upload [ex_doc 7],
                             Delay 4000, Upload [ex_doc 7]]\<rparr>)
   \<and> sorted_wrt (<) [1000, 2000, 4000 :: int]"
  using retryBatch_succeeds_after_failures
          [of 2 "ex_config 10 3 1000" "ex_env no_source (fails_first 2)" w0 "[ex_doc 7]" 1]
  by (simp add: ex_config_def ex_env_def fails_first_def ok_def w0_def
        attempt_events_def upt_rec)

text \<open>With a base delay of zero, one failure and then a success: both waits are zero.\<close>

theorem retryBatch_delays_counterexample:
  "isl (qbusiness_send (ex_env no_source (fails_first 1)) 0 [ex_doc 7])
   \<and> \<not> isl (qbusiness_send (ex_env no_source (fails_first 1)) 1 [ex_doc 7])
   \<and> 1 < maxRetries (ex_config 10 2 0)
   \<and> retryBatch (ex_env no_source (fails_first 1)) (ex_config 10 2 0) [ex_doc 7] 1 w0 =
       (Inr (), w0\<lparr>events := [Delay 0, Upload [ex_doc 7], Delay 0, Upload [ex_doc 7]]\<rparr>)
   \<and> \<not> sorted_wrt (<) (delays [Delay 0, Upload [ex_doc 7], Delay 0, Upload [ex_doc 7]])"
  by (simp add: retryBatch_def retryBatch_loop.simps uploadBatch_def ex_config_def ex_env_def
        fails_first_def ok_def w0_def emit_def delay_def)


lemma processBatches_loop_uploads:
  "\<exists>ns. length ns \<le> length batches - i \<and> 0 \<notin> set ns
        \<and> uploads (events (snd (processBatches_loop en cfg batches i w)))
            = uploads (events w) @ concat (map2 replicate ns (drop i batches))"
proof (induction en cfg batches i w rule: processBatches_loop.induct)
  case (1 en cfg batches i w)
  show ?case
  proof (cases "i < length batches")
    case False
    then have "processBatches_loop en cfg batches i w = (Inr (), w)"
      by (subst processBatches_loop.simps) simp
    then show ?thesis by (intro exI[of _ "[]"]) simp
  next
    case True
    let ?b = "batches ! i"
    let ?w1 = "emit (Upload ?b) w"
    let ?r = "qbusiness_send en (length (uploads (events w))) ?b"
    have dr: "drop i batches = ?b # drop (Suc i) batches"
      using True by (simp add: Cons_nth_drop_Suc)
    have up: "uploadBatch en ?b w = (?r, ?w1)" by (simp add: uploadBatch_def)
    show ?thesis
    proof (cases ?r)
      case (Inr resp)
      let ?w2 = "if int i < int (length batches) - 1 then delay 1000 ?w1 else ?w1"
      have u2: "uploads (events ?w2) = uploads (events w) @ [?b]" by simp
      have step: "processBatches_loop en cfg batches i w
                    = processBatches_loop en cfg batches (i + 1) ?w2"
        using True up Inr by (subst processBatches_loop.simps) simp
      from "1.IH"(2)[OF True up[symmetric] Inr]
      obtain ns where ns: "length ns \<le> length batches - (i + 1)" "0 \<notin> set ns"
        "uploads (events (snd (processBatches_loop en cfg batches (i + 1) ?w2)))
            = uploads (events ?w2) @ concat (map2 replicate ns (drop (i + 1) batches))"
        by blast
      have "uploads (events (snd (processBatches_loop en cfg batches i w)))
              = uploads (events w) @ concat (map2 replicate (1 # ns) (drop i batches))"
        unfolding step ns(3) u2 dr by simp
      moreover have "length (1 # ns) \<le> length batches - i" using ns(1) True by simp
      moreover have "0 \<notin> set (1 # ns)" using ns(2) by simp
      ultimately show ?thesis by blast
    next
      case (Inl e)
      obtain rr w2 where rb: "retryBatch en cfg ?b (i + 1) ?w1 = (rr, w2)"
        by (cases "retryBatch en cfg ?b (i + 1) ?w1")
      obtain m where "uploads (events (snd (retryBatch en cfg ?b (i + 1) ?w1)))
                        = uploads (events ?w1) @ replicate m ?b"
        using retryBatch_loop_uploads[of en cfg ?b 1 ?w1] by (auto simp: retryBatch_def)
      then have u2: "uploads (events w2) = uploads (events w) @ replicate (Suc m) ?b"
        using rb by (simp add: replicate_append_same)
      show ?thesis
      proof (cases rr)
        case rl: (Inl e')
        have "processBatches_loop en cfg batches i w = (Inl e', w2)"
          using True up Inl rb rl by (subst processBatches_loop.simps) simp
        then have "uploads (events (snd (processBatches_loop en cfg batches i w)))
              = uploads (events w) @ concat (map2 replicate [Suc m] (drop i batches))"
          unfolding dr by (simp add: u2)
        moreover have "length [Suc m] \<le> length batches - i" using True by simp
        moreover have "0 \<notin> set [Suc m]" by simp
        ultimately show ?thesis by blast
      next
        case rr: (Inr u)
        have step: "processBatches_loop en cfg batches i w
                      = processBatches_loop en cfg batches (i + 1) w2"
          using True up Inl rb rr by (subst processBatches_loop.simps) simp
        from "1.IH"(1)[OF True up[symmetric] Inl rb[symmetric] rr]
        obtain ns where ns: "length ns \<le> length batches - (i + 1)" "0 \<notin> set ns"
          "uploads (events (snd (processBatches_loop en cfg batches (i + 1) w2)))
              = uploads (events w2) @ concat (map2 replicate ns (drop (i + 1) batches))"
          by blast
        have "uploads (events (snd (processBatches_loop en cfg batches i w)))
                = uploads (events w) @ concat (map2 replicate (Suc m # ns) (drop i batches))"
          unfolding step ns(3) u2 dr by simp
        moreover have "length (Suc m # ns) \<le> length batches - i" using ns(1) True by simp
        moreover have "0 \<notin> set (Suc m # ns)" using ns(2) by simp
        ultimately show ?thesis by blast
      qed
    qed
  qed
qed



lemma retryBatch_loop_ticks: "ticks (snd (retryBatch_loop en cfg batch a w)) = ticks w"
proof (induction en cfg batch a w rule: retryBatch_loop.induct)
  case (1 en cfg batch attempt w)
  show ?case
    using 1
    by (subst retryBatch_loop.simps) (auto simp: uploadBatch_def split: sum.splits)
qed

lemma processBatches_loop_ticks:
  "ticks (snd (processBatches_loop en cfg batches i w)) = ticks w"
proof (induction en cfg batches i w rule: processBatches_loop.induct)
  case (1 en cfg batches i w)
  show ?case
  proof (cases "i < length batches")
    case False
    then show ?thesis by (subst processBatches_loop.simps) simp
  next
    case True
    let ?b = "batches ! i"
    let ?w1 = "emit (Upload ?b) w"
    let ?r = "qbusiness_send en (length (uploads (events w))) ?b"
    have up: "uploadBatch en ?b w = (?r, ?w1)" by (simp add: uploadBatch_def)
    show ?thesis
    proof (cases ?r)
      case (Inr resp)
      from "1.IH"(2)[OF True up[symmetric] Inr] True up Inr show ?thesis
        by (subst processBatches_loop.simps) simp
    next
      case (Inl e)
      obtain rr w2 where rb: "retryBatch en cfg ?b (i + 1) ?w1 = (rr, w2)"
        by (cases "retryBatch en cfg ?b (i + 1) ?w1")
      have t2: "ticks w2 = ticks w"
        using retryBatch_loop_ticks[of en cfg ?b 1 ?w1] rb by (simp add: retryBatch_def)
      show ?thesis
      proof (cases rr)
        case rl: (Inl e')
        show ?thesis
          using True up Inl rb rl t2 by (subst processBatches_loop.simps) simp
      next
        case rr: (Inr u)
        from "1.IH"(1)[OF True up[symmetric] Inl rb[symmetric] rr] True up Inl rb rr t2
        show ?thesis
          by (subst processBatches_loop.simps) simp
      qed
    qed
  qed
qed



text \<open>
  Claim C6. Every upload that \<open>retryBatch\<close> makes sends the batch it was given, and a run
  of \<open>processBatches\<close> uploads each batch it reaches one or more times in a row, always
  the same list that \<open>createBatches\<close> produced; the clock is not read again, so no
  identifier is generated anew.
\<close>

theorem retries_upload_identical_batch:
  "(\<exists>m. uploads (events (snd (retryBatch en cfg batch batchNumber w)))
          = uploads (events w) @ replicate m batch)
   \<and> (\<exists>ns. length ns \<le> length batches - i \<and> 0 \<notin> set ns
          \<and> uploads (events (snd (processBatches_loop en cfg batches i w)))
              = uploads (events w) @ concat (map2 replicate ns (drop i batches)))
   \<and> ticks (snd (retryBatch en cfg batch batchNumber w)) = ticks w
   \<and> ticks (snd (processBatches_loop en cfg batches i w)) = ticks w"
  using retryBatch_loop_uploads[of en cfg batch 1 w]
    processBatches_loop_uploads[of batches i en cfg w]
    retryBatch_loop_ticks[of en cfg batch 1 w]
    processBatches_loop_ticks[of en cfg batches i w]
  by (simp add: retryBatch_def)

text \<open>
  Claim C9 (fails on the code). The one-second wait follows a batch only when its first
  upload succeeded. A batch that went through on a retry is followed at once by the
  upload of the next batch.
\<close>

theorem retried_batch_skips_throttle_delay:
  "processBatches (ex_env no_source (fails_first 1)) (ex_config 1 2 100)
       [ex_doc 0, ex_doc 1] w0
     = Some (Inr (), \<lparr>events = [Upload [ex_doc 0], Delay 100, Upload [ex_doc 0],
                                 Upload [ex_doc 1]], ticks = 0\<rparr>)
   \<and> processBatches (ex_env no_source (fails_first 0)) (ex_config 1 2 100)
       [ex_doc 0, ex_doc 1] w0
     = Some (Inr (), \<lparr>events = [Upload [ex_doc 0], Delay 1000, Upload [ex_doc 1]],
                       ticks = 0\<rparr>)"
  by (simp add: processBatches_def createBatches_def createBatches_loop.simps array_capacity_def max_array_length_def array_slice_def
        processBatches_loop.simps retryBatch_def retryBatch_loop.simps uploadBatch_def
        ex_config_def ex_env_def fails_first_def ok_def w0_def emit_def delay_def)


section \<open>The transformer\<close>

lemma truthy_js_or: "truthy (js_or a b) = (truthy a \<or> truthy b)"
  by (simp add: js_or_def)

lemma generateDocumentId_truthy:
  "truthy (fst (generateDocumentId en cfg d w))"
  by (simp add: generateDocumentId_def now_def)

lemma generateDocumentId_ticks:
  "ticks (snd (generateDocumentId en cfg d w)) = Suc (ticks w)"
  by (simp add: generateDocumentId_def now_def)

lemma or_now_cases:
  "or_now en v w =
     (if truthy v then (v, w)
      else (JStr (toISOString en (clock en (ticks w))), w\<lparr>ticks := Suc (ticks w)\<rparr>))"
  by (simp add: or_now_def now_def)

text \<open>What \<open>transformDocument\<close> returns when \<open>Buffer.from\<close> accepts the content.\<close>

lemma transformDocument_ok:
  assumes "Buffer_from en
             (js_or (js_or (get_field d ''content'') (get_field d ''body'')) (JStr [])) = Inr bs"
  shows "transformDocument en cfg d w =
     (let p = (if truthy (get_field d ''id'') then (get_field d ''id'', w)
               else generateDocumentId en cfg d w);
          c = or_now en (get_field d ''createdAt'') (snd p);
          u = or_now en (get_field d ''updatedAt'') (snd c)
      in (Inr \<lparr>sd_id = fst p,
                sd_title = js_or (js_or (get_field d ''title'') (get_field d ''name''))
                             (JStr ''Untitled''),
                sd_blob = bs, sd_contentType = ''PLAIN_TEXT'',
                sd_attributes =
                  [(''_source_uri'',
                    js_or (js_or (get_field d ''url'') (get_field d ''source'')) (JStr [])),
                   (''_created_at'', fst c), (''_updated_at'', fst u)]
                  @ extractCustomAttributes d\<rparr>, snd u))"
  using assms by (simp add: transformDocument_def Let_def split: prod.splits)


text \<open>
  Claim C4 (amended). Whenever the content of a record (\<open>content\<close>, else \<open>body\<close>, else the
  empty string) is a string, \<open>transformDocument\<close> returns a document: its id and its
  title are truthy (so never empty), the title is \<open>Untitled\<close> when the record has neither
  a title nor a name, the blob is the UTF-8 encoding of the content (empty when there is
  none), the content type is \<open>PLAIN_TEXT\<close>, and the attributes \<open>_source_uri\<close>,
  \<open>_created_at\<close> and \<open>_updated_at\<close> are there, each timestamp being the one of the
  record or else a reading of the clock taken during the call.
\<close>

theorem transformDocument_defaults:
  assumes "js_or (js_or (get_field d ''content'') (get_field d ''body'')) (JStr []) = JStr s"
  shows "\<exists>sd w'. transformDocument en cfg d w = (Inr sd, w')
      \<and> truthy (sd_id sd) \<and> truthy (sd_title sd)
      \<and> (\<not> truthy (get_field d ''title'') \<and> \<not> truthy (get_field d ''name'')
            \<longrightarrow> sd_title sd = JStr ''Untitled'')
      \<and> sd_blob sd = utf8 s
      \<and> (\<not> truthy (get_field d ''content'') \<and> \<not> truthy (get_field d ''body'')
            \<longrightarrow> sd_blob sd = [])
      \<and> sd_contentType sd = ''PLAIN_TEXT''
      \<and> map_of (sd_attributes sd) ''_source_uri''
            = Some (js_or (js_or (get_field d ''url'') (get_field d ''source'')) (JStr []))
      \<and> (\<exists>c. map_of (sd_attributes sd) ''_created_at'' = Some c
             \<and> (if truthy (get_field d ''createdAt'') then c = get_field d ''createdAt''
                  else \<exists>t. ticks w \<le> t \<and> t < ticks w'
                         \<and> c = JStr (toISOString en (clock en t))))
      \<and> (\<exists>u. map_of (sd_attributes sd) ''_updated_at'' = Some u
             \<and> (if truthy (get_field d ''updatedAt'') then u = get_field d ''updatedAt''
                  else \<exists>t. ticks w \<le> t \<and> t < ticks w'
                         \<and> u = JStr (toISOString en (clock en t))))"
proof -
  define p where "p = (if truthy (get_field d ''id'') then (get_field d ''id'', w)
                       else generateDocumentId en cfg d w)"
  define c where "c = or_now en (get_field d ''createdAt'') (snd p)"
  define u where "u = or_now en (get_field d ''updatedAt'') (snd c)"
  have bf: "Buffer_from en
              (js_or (js_or (get_field d ''content'') (get_field d ''body'')) (JStr []))
            = Inr (utf8 s)"
    unfolding assms by (simp add: Buffer_from_def)
  note eq = transformDocument_ok [OF bf, of cfg w, folded p_def, unfolded Let_def,
      folded c_def, folded u_def]
  have idt: "truthy (fst p)"
    by (simp add: p_def generateDocumentId_truthy)
  have tp: "ticks w \<le> ticks (snd p)"
    by (simp add: p_def generateDocumentId_ticks)
  have cc: "if truthy (get_field d ''createdAt'')
            then fst c = get_field d ''createdAt'' \<and> ticks (snd c) = ticks (snd p)
            else fst c = JStr (toISOString en (clock en (ticks (snd p))))
                 \<and> ticks (snd c) = Suc (ticks (snd p))"
    by (simp add: c_def or_now_cases)
  have uu: "if truthy (get_field d ''updatedAt'')
            then fst u = get_field d ''updatedAt'' \<and> ticks (snd u) = ticks (snd c)
            else fst u = JStr (toISOString en (clock en (ticks (snd c))))
                 \<and> ticks (snd u) = Suc (ticks (snd c))"
    by (simp add: u_def or_now_cases)
  have tc: "ticks (snd p) \<le> ticks (snd c)" "ticks (snd c) \<le> ticks (snd u)"
    using cc uu by (auto split: if_splits)
  have blob0: "\<not> truthy (get_field d ''content'') \<and> \<not> truthy (get_field d ''body'')
                 \<longrightarrow> utf8 s = []"
    using assms by (auto simp: js_or_def utf8_def)
  have created: "if truthy (get_field d ''createdAt'') then fst c = get_field d ''createdAt''
                 else \<exists>t. ticks w \<le> t \<and> t < ticks (snd u)
                        \<and> fst c = JStr (toISOString en (clock en t))"
  proof (cases "truthy (get_field d ''createdAt'')")
    case True
    then show ?thesis using cc by simp
  next
    case False
    then have "ticks w \<le> ticks (snd p) \<and> ticks (snd p) < ticks (snd u)
               \<and> fst c = JStr (toISOString en (clock en (ticks (snd p))))"
      using cc tp tc by simp
    then show ?thesis using False by auto
  qed
  have updated: "if truthy (get_field d ''updatedAt'') then fst u = get_field d ''updatedAt''
                 else \<exists>t. ticks w \<le> t \<and> t < ticks (snd u)
                        \<and> fst u = JStr (toISOString en (clock en t))"
  proof (cases "truthy (get_field d ''updatedAt'')")
    case True
    then show ?thesis using uu by simp
  next
    case False
    then have "ticks w \<le> ticks (snd c) \<and> ticks (snd c) < ticks (snd u)
               \<and> fst u = JStr (toISOString en (clock en (ticks (snd c))))"
      using uu tp tc by simp
    then show ?thesis using False by auto
  qed
  show ?thesis
    unfolding eq using idt blob0 created updated
    by (simp add: truthy_js_or js_or_def)
qed


theorem transformDocument_defaults_witness:
  "js_or (js_or (get_field [] ''content'') (get_field [] ''body'')) (JStr []) = JStr []
   \<and> (\<exists>sd w'. transformDocument (ex_env no_source (fails_first 0)) (ex_config 10 3 1000) [] w0
                  = (Inr sd, w')
        \<and> truthy (sd_id sd) \<and> sd_title sd = JStr ''Untitled'' \<and> sd_blob sd = []
        \<and> sd_contentType sd = ''PLAIN_TEXT''
        \<and> map_of (sd_attributes sd) ''_source_uri'' = Some (JStr [])
        \<and> (\<exists>c. map_of (sd_attributes sd) ''_created_at'' = Some c
               \<and> (\<exists>t. ticks w0 \<le> t \<and> t < ticks w'
                      \<and> c = JStr (toISOString (ex_env no_source (fails_first 0))
                                    (clock (ex_env no_source (fails_first 0)) t))))
        \<and> (\<exists>u. map_of (sd_attributes sd) ''_updated_at'' = Some u
               \<and> (\<exists>t. ticks w0 \<le> t \<and> t < ticks w'
                      \<and> u = JStr (toISOString (ex_env no_source (fails_first 0))
                                    (clock (ex_env no_source (fails_first 0)) t)))))"
  using transformDocument_defaults
          [of "[]" "[]" "ex_env no_source (fails_first 0)" "ex_config 10 3 1000" w0]
  by (simp add: get_field_def js_or_def utf8_def) blast

text \<open>A record whose content is the number 42: \<open>Buffer.from\<close> raises after the id was
  generated.\<close>

theorem transformDocument_total_counterexample:
  "transformDocument (ex_env no_source (fails_first 0)) (ex_config 10 3 1000)
     [(''title'', JStr ''T''), (''content'', JNum 42)] w0
   = (Inl TypeError, \<lparr>events = [], ticks = 1\<rparr>)"
  by (simp add: transformDocument_def generateDocumentId_def now_def Buffer_from_def
        get_field_def js_or_def w0_def ex_env_def ex_config_def)




section \<open>The source client\<close>

lemma js_or_False: "truthy (js_or v (JBool False)) = truthy v"
  by (simp add: js_or_def)

lemma fetchAll_loop_done:
  "\<not> truthy hasMore \<Longrightarrow> fetchAll_loop en cfg hasMore page documents w = Some (Inr documents, w)"
  by (subst fetchAll_loop.simps) simp

lemma fetchAll_loop_fail:
  assumes "truthy hasMore" and "client_get en page (pageLimit cfg) = Inl e"
  shows "fetchAll_loop en cfg hasMore page documents w =
           Some (Inl e, w\<lparr>events := events w @ [FetchPage page (pageLimit cfg)]\<rparr>)"
  using assms by (subst fetchAll_loop.simps) (simp add: fetchPage_def emit_def)

lemma fetchAll_loop_continue:
  assumes "truthy hasMore" and "client_get en page (pageLimit cfg) = Inr d"
    and "continues (normalize_response d)"
  shows "\<exists>h. truthy h \<and> fetchAll_loop en cfg hasMore page documents w =
           fetchAll_loop en cfg h (page + 1) (documents @ page_docs (normalize_response d))
             (w\<lparr>events := events w @ page_events cfg page\<rparr>)"
proof -
  from assms(3) obtain ds where ds: "pd_documents (normalize_response d) = DocArray ds" "ds \<noteq> []"
    and h: "truthy (pd_hasMore (normalize_response d))"
    by (auto simp: continues_def page_docs_def split: page_documents.splits)
  have "fetchAll_loop en cfg hasMore page documents w =
           fetchAll_loop en cfg (js_or (pd_hasMore (normalize_response d)) (JBool False)) (page + 1)
             (documents @ page_docs (normalize_response d))
             (w\<lparr>events := events w @ page_events cfg page\<rparr>)"
    using assms(1,2) ds
    by (subst fetchAll_loop.simps)
       (simp add: fetchPage_def emit_def delay_def page_docs_def page_events_def)
  moreover have "truthy (js_or (pd_hasMore (normalize_response d)) (JBool False))"
    using h by (simp add: js_or_False)
  ultimately show ?thesis by blast
qed

lemma fetchAll_loop_last:
  assumes "truthy hasMore" and "client_get en page (pageLimit cfg) = Inr d"
    and "\<not> continues (normalize_response d)"
  shows "fetchAll_loop en cfg hasMore page documents w =
           Some (Inr (documents @ page_docs (normalize_response d)),
                 w\<lparr>events := events w @ page_events cfg page\<rparr>)"
proof (cases "pd_documents (normalize_response d)")
  case (DocObject f)
  then show ?thesis
    using assms(1,2)
    by (subst fetchAll_loop.simps)
       (simp add: fetchPage_def fetchAll_loop_done emit_def delay_def page_docs_def
          page_events_def)
next
  case (DocArray ds)
  show ?thesis
  proof (cases "ds = []")
    case True
    then show ?thesis
      using assms(1,2) DocArray
      by (subst fetchAll_loop.simps)
         (simp add: fetchPage_def fetchAll_loop_done emit_def delay_def page_docs_def
            page_events_def)
  next
    case False
    then have "\<not> truthy (js_or (pd_hasMore (normalize_response d)) (JBool False))"
      using assms(3) DocArray by (simp add: continues_def page_docs_def js_or_False)
    then show ?thesis
      using assms(1,2) DocArray False
      by (subst fetchAll_loop.simps)
         (simp add: fetchPage_def fetchAll_loop_done emit_def delay_def page_docs_def
            page_events_def)
  qed
qed


lemma fetchAll_loop_run:
  assumes "truthy hasMore"
    and "\<forall>q. p \<le> q \<and> q < p + n \<longrightarrow>
           (\<exists>d. client_get en q (pageLimit cfg) = Inr d \<and> continues (normalize_response d))"
  shows "\<exists>h. truthy h \<and> fetchAll_loop en cfg hasMore p documents w =
           fetchAll_loop en cfg h (p + n)
             (documents @ concat (map (fetched_docs en cfg) [p..<p + n]))
             (w\<lparr>events := events w @ concat (map (page_events cfg) [p..<p + n])\<rparr>)"
  using assms
proof (induction n arbitrary: p hasMore documents w)
  case 0
  then show ?case by (intro exI[of _ hasMore]) simp
next
  case (Suc n)
  from Suc.prems(2) obtain d where d: "client_get en p (pageLimit cfg) = Inr d"
    "continues (normalize_response d)"
    by (auto dest: spec[of _ p])
  let ?docs = "documents @ page_docs (normalize_response d)"
  let ?w1 = "w\<lparr>events := events w @ page_events cfg p\<rparr>"
  from fetchAll_loop_continue[OF Suc.prems(1) d, of documents w]
  obtain h where h: "truthy h"
    "fetchAll_loop en cfg hasMore p documents w = fetchAll_loop en cfg h (p + 1) ?docs ?w1"
    by blast
  have "\<forall>q. p + 1 \<le> q \<and> q < (p + 1) + n \<longrightarrow>
           (\<exists>d. client_get en q (pageLimit cfg) = Inr d \<and> continues (normalize_response d))"
    using Suc.prems(2) by simp
  from Suc.IH[OF h(1) this, of ?docs ?w1]
  obtain h' where h': "truthy h'"
    "fetchAll_loop en cfg h (p + 1) ?docs ?w1 =
       fetchAll_loop en cfg h' (p + 1 + n)
         (?docs @ concat (map (fetched_docs en cfg) [p + 1..<p + 1 + n]))
         (?w1\<lparr>events := events ?w1 @ concat (map (page_events cfg) [p + 1..<p + 1 + n])\<rparr>)"
    by blast
  have upt: "[p..<p + Suc n] = p # [p + 1..<p + 1 + n]" by (simp add: upt_rec)
  have fd: "fetched_docs en cfg p = page_docs (normalize_response d)"
    by (simp add: fetched_docs_def d(1))
  have "fetchAll_loop en cfg hasMore p documents w =
          fetchAll_loop en cfg h' (p + Suc n)
             (documents @ concat (map (fetched_docs en cfg) [p..<p + Suc n]))
             (w\<lparr>events := events w @ concat (map (page_events cfg) [p..<p + Suc n])\<rparr>)"
    unfolding h(2) h'(2) upt by (simp add: fd)
  with h'(1) show ?case by blast
qed

lemma pages_page_events: "pages (concat (map (page_events cfg) qs)) = qs"
  by (induction qs) (simp_all add: page_events_def)

text \<open>
  Claim C8. \<open>fetchAll\<close> requests the pages 1, 2, 3, ... in this order, each once. At the
  first page \<open>N\<close> that has no records or a falsy \<open>hasMore\<close> it stops and returns the
  records of the pages 1 to \<open>N\<close>, in page order; if instead the request of page \<open>N\<close>
  fails, \<open>fetchAll\<close> fails with the same error, after that single request of page \<open>N\<close>.
\<close>

theorem fetchAll_pages_in_order:
  assumes "1 \<le> N"
    and "\<forall>q. 1 \<le> q \<and> q < N \<longrightarrow>
           (\<exists>d. client_get en q (pageLimit cfg) = Inr d \<and> continues (normalize_response d))"
  shows "pages (concat (map (page_events cfg) [1..<Suc N])) = [1..<Suc N]
       \<and> (\<forall>d. client_get en N (pageLimit cfg) = Inr d \<and> \<not> continues (normalize_response d) \<longrightarrow>
            fetchAll en cfg w =
              Some (Inr (concat (map (fetched_docs en cfg) [1..<Suc N])),
                    w\<lparr>events := events w @ concat (map (page_events cfg) [1..<Suc N])\<rparr>))
       \<and> (\<forall>e. client_get en N (pageLimit cfg) = Inl e \<longrightarrow>
            fetchAll en cfg w =
              Some (Inl e,
                    w\<lparr>events := events w @ concat (map (page_events cfg) [1..<N])
                                     @ [FetchPage N (pageLimit cfg)]\<rparr>))"
proof -
  define n where "n = N - 1"
  have N: "N = 1 + n" using assms(1) by (simp add: n_def)
  have "\<forall>q. 1 \<le> q \<and> q < 1 + n \<longrightarrow>
           (\<exists>d. client_get en q (pageLimit cfg) = Inr d \<and> continues (normalize_response d))"
    using assms(2) unfolding N by simp
  from fetchAll_loop_run[of "JBool True" 1 n en cfg "[]" w, OF _ this]
  obtain h where h: "truthy h"
    "fetchAll en cfg w =
       fetchAll_loop en cfg h N (concat (map (fetched_docs en cfg) [1..<N]))
         (w\<lparr>events := events w @ concat (map (page_events cfg) [1..<N])\<rparr>)"
    unfolding N fetchAll_def by auto
  have upt: "[1..<Suc N] = [1..<N] @ [N]" using assms(1) by simp
  show ?thesis
  proof (intro conjI allI impI)
    show "pages (concat (map (page_events cfg) [1..<Suc N])) = [1..<Suc N]"
      by (rule pages_page_events)
  next
    fix d assume d: "client_get en N (pageLimit cfg) = Inr d \<and> \<not> continues (normalize_response d)"
    then have fd: "fetched_docs en cfg N = page_docs (normalize_response d)"
      by (simp add: fetched_docs_def)
    from d show "fetchAll en cfg w =
              Some (Inr (concat (map (fetched_docs en cfg) [1..<Suc N])),
                    w\<lparr>events := events w @ concat (map (page_events cfg) [1..<Suc N])\<rparr>)"
      unfolding h(2) upt by (simp add: fetchAll_loop_last[OF h(1)] fd)
  next
    fix e assume "client_get en N (pageLimit cfg) = Inl e"
    then show "fetchAll en cfg w =
              Some (Inl e,
                    w\<lparr>events := events w @ concat (map (page_events cfg) [1..<N])
                                     @ [FetchPage N (pageLimit cfg)]\<rparr>)"
      unfolding h(2) by (simp add: fetchAll_loop_fail[OF h(1)])
  qed
qed

theorem fetchAll_pages_in_order_witness:
  "fetchAll (ex_env two_pages (fails_first 0)) (ex_config 2 3 1000) w0 =
     Some (Inr [[(''id'', JStr ''a'')], [(''id'', JStr ''b'')], [(''id'', JStr ''c'')]],
           \<lparr>events = [FetchPage 1 2, Delay 100, FetchPage 2 2, Delay 100], ticks = 0\<rparr>)
   \<and> fetchAll (ex_env (fails_on_page 2) (fails_first 0)) (ex_config 2 3 1000) w0 =
     Some (Inl (Thrown ''ETIMEDOUT''),
           \<lparr>events = [FetchPage 1 2, Delay 100, FetchPage 2 2], ticks = 0\<rparr>)"
proof -
  let ?C = "ex_config 2 3 1000"
  let ?E = "ex_env two_pages (fails_first 0)"
  let ?F = "ex_env (fails_on_page 2) (fails_first 0)"
  have lim: "pageLimit ?C = 2" by (simp add: pageLimit_def ex_config_def)
  have p1: "\<forall>q. 1 \<le> q \<and> q < 2 \<longrightarrow>
           (\<exists>d. client_get ?E q (pageLimit ?C) = Inr d \<and> continues (normalize_response d))"
    by (auto simp: ex_env_def two_pages_def continues_def page_docs_def normalize_response_def js_or_def)
  have p1': "\<forall>q. 1 \<le> q \<and> q < 2 \<longrightarrow>
           (\<exists>d. client_get ?F q (pageLimit ?C) = Inr d \<and> continues (normalize_response d))"
    by (auto simp: ex_env_def fails_on_page_def two_pages_def continues_def page_docs_def
          normalize_response_def js_or_def)
  have upt: "[1..<Suc 2] = [1, 2]" "[1..<2] = [1::nat]" by (simp_all add: upt_rec)
  from fetchAll_pages_in_order [of 2 ?E ?C w0, OF _ p1, THEN conjunct2, THEN conjunct1]
  have a: "fetchAll ?E ?C w0 =
     Some (Inr [[(''id'', JStr ''a'')], [(''id'', JStr ''b'')], [(''id'', JStr ''c'')]],
           \<lparr>events = [FetchPage 1 2, Delay 100, FetchPage 2 2, Delay 100], ticks = 0\<rparr>)"
    unfolding upt
    by (simp add: lim ex_env_def two_pages_def continues_def page_docs_def normalize_response_def
          js_or_def fetched_docs_def page_events_def w0_def)
  from fetchAll_pages_in_order [of 2 ?F ?C w0, OF _ p1', THEN conjunct2, THEN conjunct2]
  have b: "fetchAll ?F ?C w0 =
     Some (Inl (Thrown ''ETIMEDOUT''),
           \<lparr>events = [FetchPage 1 2, Delay 100, FetchPage 2 2], ticks = 0\<rparr>)"
    unfolding upt
    by (simp add: lim ex_env_def fails_on_page_def page_events_def w0_def)
  from a b show ?thesis by simp
qed

section \<open>The run\<close>

lemma fetchAll_loop_keeps_uploads:
  assumes "fetchAll_loop en cfg hasMore page documents w = Some y"
  shows "uploads (events (snd y)) = uploads (events w)"
proof (rule fetchAll_loop.raw_induct
    [where P = "\<lambda>en cfg hasMore page documents w y. uploads (events (snd y)) = uploads (events w)",
     OF _ assms])
  fix loop :: "env \<Rightarrow> config \<Rightarrow> jsval \<Rightarrow> nat \<Rightarrow> rawdoc list \<Rightarrow> world
     \<Rightarrow> ((error + rawdoc list) \<times> world) option"
  fix en cfg hasMore page documents w y
  assume IH: "\<And>en cfg hasMore page documents w y.
      loop en cfg hasMore page documents w = Some y \<Longrightarrow>
      uploads (events (snd y)) = uploads (events w)"
  assume eq: "(if truthy hasMore then
        (case fetchPage en cfg page w of
           (Inl e, w1) \<Rightarrow> Some (Inl e, w1)
         | (Inr pd, w1) \<Rightarrow>
             (case pd_documents pd of
                DocArray ds \<Rightarrow>
                  if length ds > 0
                  then loop en cfg (js_or (pd_hasMore pd) (JBool False)) (page + 1)
                         (documents @ ds) (delay 100 w1)
                  else loop en cfg (JBool False) page documents (delay 100 w1)
              | DocObject f \<Rightarrow>
                  loop en cfg (JBool False) page documents (delay 100 w1)))
      else Some (Inr documents, w)) = Some y"
  show "uploads (events (snd y)) = uploads (events w)"
    using eq
    by (auto simp: fetchPage_def Let_def
          split: if_splits sum.splits page_documents.splits dest!: IH)
qed

text \<open>
  Claim C7. If \<open>fetchAll\<close> returns no record, \<open>sync\<close> ends normally right after the
  fetch and no batch is uploaded; this is what happens when the first page of the source
  has no records.
\<close>

theorem sync_no_documents:
  "(fetchAll en cfg w = Some (Inr [], w1) \<longrightarrow>
      sync en cfg w = Some (Inr (), w1) \<and> uploads (events w1) = uploads (events w))
   \<and> (client_get en 1 (pageLimit cfg) = Inr d \<and> page_docs (normalize_response d) = [] \<longrightarrow>
      sync en cfg w = Some (Inr (), w\<lparr>events := events w @ page_events cfg 1\<rparr>)
      \<and> uploads (events w @ page_events cfg 1) = uploads (events w))"
proof (intro conjI impI)
  assume f: "fetchAll en cfg w = Some (Inr [], w1)"
  then show "sync en cfg w = Some (Inr (), w1)"
    by (simp add: sync_def fetchDocuments_def)
  from f show "uploads (events w1) = uploads (events w)"
    using fetchAll_loop_keeps_uploads[of en cfg "JBool True" 1 "[]" w "(Inr [], w1)"]
    by (simp add: fetchAll_def)
next
  assume d: "client_get en 1 (pageLimit cfg) = Inr d \<and> page_docs (normalize_response d) = []"
  then have "\<not> continues (normalize_response d)" by (simp add: continues_def)
  with d have "fetchAll en cfg w =
      Some (Inr [], w\<lparr>events := events w @ page_events cfg 1\<rparr>)"
    using fetchAll_loop_last[of "JBool True" en 1 cfg d "[]" w]
    by (simp add: fetchAll_def)
  then show "sync en cfg w = Some (Inr (), w\<lparr>events := events w @ page_events cfg 1\<rparr>)"
    by (simp add: sync_def fetchDocuments_def)
  show "uploads (events w @ page_events cfg 1) = uploads (events w)"
    by (simp add: page_events_def)
qed

theorem sync_no_documents_witness:
  "fetchAll (ex_env empty_source (fails_from 0)) (ex_config 10 3 1000) w0 =
     Some (Inr [], \<lparr>events = [FetchPage 1 10, Delay 100], ticks = 0\<rparr>)
   \<and> sync (ex_env empty_source (fails_from 0)) (ex_config 10 3 1000) w0 =
     Some (Inr (), \<lparr>events = [FetchPage 1 10, Delay 100], ticks = 0\<rparr>)
   \<and> uploads [FetchPage 1 10, Delay 100] = []"
proof -
  let ?E = "ex_env empty_source (fails_from 0)"
  let ?C = "ex_config 10 3 1000"
  let ?w1 = "\<lparr>events = [FetchPage 1 10, Delay 100], ticks = 0\<rparr>"
  have f: "fetchAll ?E ?C w0 = Some (Inr [], ?w1)"
    by (simp add: fetchAll_def fetchAll_loop.simps fetchPage_def normalize_response_def
          pageLimit_def ex_env_def ex_config_def empty_source_def js_or_def w0_def
          emit_def delay_def)
  from sync_no_documents [of ?E ?C w0 ?w1, THEN conjunct1, THEN mp, OF f] f
  show ?thesis by simp
qed

end
